theory Spec2Isabelle
  imports Complex_Main
begin

section \<open>The sliding-window rate limiter of semanager.py\<close>

text \<open>
  The class \<^verbatim>\<open>RateLimiter\<close> (semanager.py, lines 24 to 39) keeps three fields: the
  permitted number of calls per window, the length of the window in seconds, and the list
  of the timestamps it has recorded. Python's \<^verbatim>\<open>time.time()\<close> returns seconds as a
  float; seconds are modelled as \<^typ>\<open>real\<close>, so rounding of floats is left out.
  The count is an \<^typ>\<open>int\<close>, as Python's is, so zero and negative counts are inputs
  of the model as they are of the code.
\<close>

record RateLimiter =
  calls_per_interval :: int
  interval :: real
  calls :: "real list"

text \<open>
  The exceptions that the body of \<^verbatim>\<open>wait\<close> can raise: indexing an empty list, and
  what \<^verbatim>\<open>time.sleep\<close> raises for a number it does not accept.
\<close>

datatype error = IndexError | ValueError | OverflowError

text \<open>
  \<^verbatim>\<open>time.sleep\<close> is CPython's, not this program's. It first converts its argument to a
  signed 64-bit count of nanoseconds and raises OverflowError when the count does not
  fit, that is from \<open>2 ^ 63\<close> nanoseconds (about 9.22e9 seconds) on; it then raises
  ValueError for a negative argument; otherwise it hands the sleep to the operating
  system. \<open>None\<close> stands for having slept. Limits of the operating system's own sleep
  call, which differ between platforms, are not part of the model.
\<close>

definition sleep_limit :: real where
  "sleep_limit = 9223372036854775808 / 1000000000"

definition time_sleep :: "real \<Rightarrow> error option" where
  "time_sleep d =
     (if sleep_limit \<le> d \<or> d < - sleep_limit then Some OverflowError
      else if d < 0 then Some ValueError
      else None)"

text \<open>
  \<^verbatim>\<open>__init__\<close> (lines 28 to 31) stores its two arguments and an empty list. It has no
  check and no \<^verbatim>\<open>raise\<close>, so its model is a total function into the record.
\<close>

definition init :: "int \<Rightarrow> real \<Rightarrow> RateLimiter" where
  "init c i = \<lparr>calls_per_interval = c, interval = i, calls = []\<rparr>"

text \<open>
  The list comprehension of line 35, \<^verbatim>\<open>[t for t in self.calls if now - t < self.interval]\<close>:
  the timestamps that a call reading \<open>now\<close> retains, in the order of the list.
\<close>

definition retained :: "RateLimiter \<Rightarrow> real \<Rightarrow> real list" where
  "retained self now = filter (\<lambda>t. now - t < interval self) (calls self)"

text \<open>
  \<^verbatim>\<open>wait\<close> (lines 33 to 39). The clock is outside the program, so its two readings are
  inputs: \<open>now\<close> is what \<^verbatim>\<open>time.time()\<close> returns on line 34 and \<open>woke\<close> what it
  returns on line 39. The result says what the call did, \<open>Inl e\<close> when it raised \<open>e\<close>,
  \<open>Inr None\<close> when it returned without calling \<^verbatim>\<open>time.sleep\<close>, \<open>Inr (Some d)\<close>
  when it returned after \<^verbatim>\<open>time.sleep(d)\<close>, together with the object as the call left
  it. Line 35 assigns the pruned list before anything can raise, so the pruned list is
  what an exception leaves behind; line 39 is not reached then, and \<open>woke\<close> is not used.
\<close>

definition wait :: "RateLimiter \<Rightarrow> real \<Rightarrow> real \<Rightarrow> (error + real option) \<times> RateLimiter" where
  "wait self now woke =
     (let self1 = self\<lparr>calls := retained self now\<rparr> in
      if calls_per_interval self1 \<le> int (length (calls self1)) then
        (case calls self1 of
           [] \<Rightarrow> (Inl IndexError, self1)
         | c0 # _ \<Rightarrow>
             (let sleep_time = interval self1 - (now - c0) in
              case time_sleep sleep_time of
                Some e \<Rightarrow> (Inl e, self1)
              | None \<Rightarrow> (Inr (Some sleep_time), self1\<lparr>calls := calls self1 @ [woke]\<rparr>)))
      else (Inr None, self1\<lparr>calls := calls self1 @ [woke]\<rparr>))"

text \<open>The seconds a call spent in \<^verbatim>\<open>time.sleep\<close>: none when it did not call it or raised.\<close>

fun slept :: "error + real option \<Rightarrow> real" where
  "slept (Inr (Some d)) = d"
| "slept (Inr None) = 0"
| "slept (Inl e) = 0"

text \<open>
  A sequence of calls, each with its two clock readings. Both call sites (lines 867 and
  1125) sit inside \<^verbatim>\<open>try ... except Exception\<close>, so a call that raises does not end the
  program: the next call finds the object as the failed one left it.
\<close>

fun run :: "RateLimiter \<Rightarrow> (real \<times> real) list \<Rightarrow> (error + real option) list \<times> RateLimiter" where
  "run self [] = ([], self)"
| "run self ((now, woke) # ps) =
     (case wait self now woke of
        (r, self1) \<Rightarrow> (case run self1 ps of (rs, self2) \<Rightarrow> (r # rs, self2)))"

text \<open>The timestamps recorded by the calls of a sequence that returned: the admissions.\<close>

fun admissions :: "RateLimiter \<Rightarrow> (real \<times> real) list \<Rightarrow> real list" where
  "admissions self [] = []"
| "admissions self ((now, woke) # ps) =
     (case wait self now woke of
        (Inl e, self1) \<Rightarrow> admissions self1 ps
      | (Inr s, self1) \<Rightarrow> woke # admissions self1 ps)"

text \<open>
  A nondecreasing clock: no reading is below the reading before it (\<open>prev\<close> for the
  first call).
\<close>

fun nondecreasing :: "real \<Rightarrow> (real \<times> real) list \<Rightarrow> bool" where
  "nondecreasing prev [] = True"
| "nondecreasing prev ((now, woke) # ps) = (prev \<le> now \<and> now \<le> woke \<and> nondecreasing woke ps)"

text \<open>
  A clock that never runs backward and on which \<^verbatim>\<open>time.sleep(d)\<close> takes at least \<open>d\<close>
  seconds: every call starts no earlier than the reading before it (\<open>prev\<close> for the first
  call), and its second reading is no earlier than its first plus the time it slept.
\<close>

fun clock_ok :: "RateLimiter \<Rightarrow> real \<Rightarrow> (real \<times> real) list \<Rightarrow> bool" where
  "clock_ok self prev [] = True"
| "clock_ok self prev ((now, woke) # ps) =
     (prev \<le> now \<and> now + slept (fst (wait self now woke)) \<le> woke
      \<and> clock_ok (snd (wait self now woke)) woke ps)"

text \<open>The admissions inside the trailing window \<open>(T - w, T]\<close>.\<close>

definition in_window :: "real \<Rightarrow> real \<Rightarrow> real list \<Rightarrow> real list" where
  "in_window w T ts = filter (\<lambda>a. T - w < a \<and> a \<le> T) ts"

text \<open>
  What holds between calls under a nondecreasing clock: the stored list is sorted and
  nothing in it lies after the last reading \<open>seen\<close>.
\<close>

definition sorted_inv :: "real \<Rightarrow> RateLimiter \<Rightarrow> bool" where
  "sorted_inv seen self \<longleftrightarrow> sorted (calls self) \<and> (\<forall>x \<in> set (calls self). x \<le> seen)"

text \<open>
  What holds between calls under a clock that also honours sleeps, for a limiter
  \<open>self\<close>, the last clock reading \<open>seen\<close> and the list \<open>adm\<close> of all timestamps recorded so far: nothing
  recorded lies after \<open>seen\<close>; the stored list is sorted and holds at most one timestamp
  more than the permitted count; no window holds more admissions than permitted; and
  from \<open>seen\<close> on, pruning the stored list keeps what pruning all admissions would keep.
\<close>

definition window_inv :: "real \<Rightarrow> RateLimiter \<Rightarrow> real list \<Rightarrow> bool" where
  "window_inv seen self adm \<longleftrightarrow>
     0 < calls_per_interval self
   \<and> (\<forall>x \<in> set adm. x \<le> seen)
   \<and> (\<forall>x \<in> set (calls self). x \<le> seen)
   \<and> sorted (calls self)
   \<and> int (length (calls self)) \<le> calls_per_interval self + 1
   \<and> (\<forall>T. int (length (in_window (interval self) T adm)) \<le> calls_per_interval self)
   \<and> (\<forall>n. seen \<le> n \<longrightarrow>
         filter (\<lambda>t. n - t < interval self) (calls self) = filter (\<lambda>t. n - t < interval self) adm)"

text \<open>
  Calls that are spaced out: no call's second clock reading is before its first, and each
  call arrives more than \<open>g\<close> seconds after the timestamp the call before it recorded.
\<close>

fun spaced :: "real \<Rightarrow> (real \<times> real) list \<Rightarrow> bool" where
  "spaced g [] = True"
| "spaced g [(now, woke)] = (now \<le> woke)"
| "spaced g ((now, woke) # (now', woke') # ps) =
     (now \<le> woke \<and> woke + g < now' \<and> spaced g ((now', woke') # ps))"

section \<open>Facts about one call\<close>

lemma sleep_limit_pos: "0 < sleep_limit"
  by (simp add: sleep_limit_def)

lemma time_sleep_accepts: "0 \<le> d \<Longrightarrow> d < sleep_limit \<Longrightarrow> time_sleep d = None"
  using sleep_limit_pos by (simp add: time_sleep_def)

lemma time_sleep_overflow: "sleep_limit \<le> d \<Longrightarrow> time_sleep d = Some OverflowError"
  by (simp add: time_sleep_def)

lemma retained_member: "t \<in> set (retained self now) \<Longrightarrow> now - t < interval self"
  by (simp add: retained_def)

lemma wait_nosleep:
  "int (length (retained self now)) < calls_per_interval self
   \<Longrightarrow> wait self now woke = (Inr None, self\<lparr>calls := retained self now @ [woke]\<rparr>)"
  by (simp add: wait_def Let_def)

lemma wait_sleep:
  assumes "calls_per_interval self \<le> int (length (retained self now))"
    and "retained self now = c0 # cs"
    and "interval self - (now - c0) < sleep_limit"
  shows "wait self now woke =
       (Inr (Some (interval self - (now - c0))), self\<lparr>calls := c0 # cs @ [woke]\<rparr>)"
proof -
  have "c0 \<in> set (retained self now)"
    using assms(2) by simp
  then have "0 \<le> interval self - (now - c0)"
    using retained_member [of c0 self now] by simp
  then have "time_sleep (interval self - (now - c0)) = None"
    using assms(3) by (rule time_sleep_accepts)
  then show ?thesis
    using assms(1,2) by (simp add: wait_def Let_def)
qed

lemma wait_overflow:
  assumes "calls_per_interval self \<le> int (length (retained self now))"
    and "retained self now = c0 # cs"
    and "sleep_limit \<le> interval self - (now - c0)"
  shows "wait self now woke = (Inl OverflowError, self\<lparr>calls := retained self now\<rparr>)"
  using assms time_sleep_overflow [OF assms(3)] by (simp add: wait_def Let_def)

lemma wait_raises:
  assumes "calls_per_interval self \<le> 0"
    and "retained self now = []"
  shows "wait self now woke = (Inl IndexError, self\<lparr>calls := []\<rparr>)"
  using assms by (simp add: wait_def Let_def)

text \<open>
  The four ways through the body, and nothing else. \<open>ValueError\<close> is never raised: the
  head of the pruned list passed the test of line 35, so the sleep is positive.
\<close>

lemma wait_cases:
  obtains (nosleep) "int (length (retained self now)) < calls_per_interval self"
      "wait self now woke = (Inr None, self\<lparr>calls := retained self now @ [woke]\<rparr>)"
  | (sleep) c0 cs where "calls_per_interval self \<le> int (length (retained self now))"
      "retained self now = c0 # cs"
      "now - c0 < interval self"
      "interval self - (now - c0) < sleep_limit"
      "wait self now woke =
        (Inr (Some (interval self - (now - c0))), self\<lparr>calls := c0 # cs @ [woke]\<rparr>)"
  | (overflow) c0 cs where "calls_per_interval self \<le> int (length (retained self now))"
      "retained self now = c0 # cs"
      "sleep_limit \<le> interval self - (now - c0)"
      "wait self now woke = (Inl OverflowError, self\<lparr>calls := retained self now\<rparr>)"
  | (raises) "calls_per_interval self \<le> 0"
      "retained self now = []"
      "wait self now woke = (Inl IndexError, self\<lparr>calls := []\<rparr>)"
proof (cases "calls_per_interval self \<le> int (length (retained self now))")
  case False
  then show ?thesis using nosleep wait_nosleep [of self now woke] by simp
next
  case True
  show ?thesis
  proof (cases "retained self now")
    case Nil
    then show ?thesis using True raises wait_raises by simp
  next
    case (Cons c0 cs)
    then have "c0 \<in> set (retained self now)" by simp
    then have fresh: "now - c0 < interval self" by (rule retained_member)
    show ?thesis
    proof (cases "interval self - (now - c0) < sleep_limit")
      case True
      then show ?thesis
        using sleep \<open>calls_per_interval self \<le> int (length (retained self now))\<close> Cons fresh
          wait_sleep by blast
    next
      case False
      then have "sleep_limit \<le> interval self - (now - c0)" by simp
      then show ?thesis
        using overflow \<open>calls_per_interval self \<le> int (length (retained self now))\<close> Cons
          wait_overflow by blast
    qed
  qed
qed

lemma wait_keeps_fields:
  "calls_per_interval (snd (wait self now woke)) = calls_per_interval self"
  "interval (snd (wait self now woke)) = interval self"
  by (simp_all add: wait_def Let_def split: list.split option.split)




text \<open>Under a nondecreasing clock the stored list stays sorted and in the past.\<close>

lemma wait_sorted_inv:
  assumes "sorted_inv seen self" and "seen \<le> now" and "now \<le> woke"
  shows "sorted_inv woke (snd (wait self now woke))"
proof -
  have srt: "sorted (retained self now)"
    using assms(1) by (simp add: sorted_inv_def retained_def sorted_wrt_filter)
  have le: "\<forall>x \<in> set (retained self now). x \<le> woke"
    using assms by (fastforce simp: sorted_inv_def retained_def)
  have pruned: "sorted_inv woke (self\<lparr>calls := retained self now\<rparr>)"
    using srt le by (simp add: sorted_inv_def)
  have recorded: "sorted_inv woke (self\<lparr>calls := retained self now @ [woke]\<rparr>)"
    using srt le by (simp add: sorted_inv_def sorted_append)
  show ?thesis
    by (rule wait_cases [where self = self and now = now and woke = woke])
      (use pruned recorded in \<open>auto simp: sorted_inv_def\<close>)
qed


section \<open>Facts about a sequence of calls\<close>


lemma run_keeps_fields:
  "calls_per_interval (snd (run self ps)) = calls_per_interval self \<and>
   interval (snd (run self ps)) = interval self"
proof (induction self ps rule: run.induct)
  case (1 self)
  then show ?case by simp
next
  case (2 self now woke ps)
  then show ?case
    using wait_keeps_fields [of self now woke]
    by (auto split: prod.splits)
qed

lemma run_Cons:
  "run self ((now, woke) # ps) =
     (fst (wait self now woke) # fst (run (snd (wait self now woke)) ps),
      snd (run (snd (wait self now woke)) ps))"
  by (simp split: prod.splits)


lemma run_sorted_inv:
  "sorted_inv seen self \<Longrightarrow> nondecreasing seen ps
   \<Longrightarrow> sorted_inv (last (seen # map snd ps)) (snd (run self ps))"
proof (induction ps arbitrary: seen self)
  case Nil
  then show ?case by simp
next
  case (Cons p ps)
  obtain now woke where p: "p = (now, woke)" by (cases p)
  have "sorted_inv woke (snd (wait self now woke))"
    using wait_sorted_inv [OF Cons.prems(1), of now woke] Cons.prems(2) p by simp
  moreover have "nondecreasing woke ps"
    using Cons.prems(2) p by simp
  ultimately have "sorted_inv (last (woke # map snd ps)) (snd (run (snd (wait self now woke)) ps))"
    by (rule Cons.IH)
  then show ?case
    using p by (simp add: run_Cons del: run.simps)
qed



lemma admissions_Cons:
  "admissions self ((now, woke) # ps) =
     admissions self [(now, woke)] @ admissions (snd (wait self now woke)) ps"
  by (cases "wait self now woke") (auto split: sum.splits)


text \<open>While the list is shorter than the permitted count, no call sleeps.\<close>

lemma run_under_capacity:
  "int (length (calls self) + length ps) \<le> calls_per_interval self
   \<Longrightarrow> fst (run self ps) = replicate (length ps) (Inr None)"
proof (induction self ps rule: run.induct)
  case (1 self)
  then show ?case by simp
next
  case (2 self now woke ps)
  let ?self1 = "self\<lparr>calls := retained self now @ [woke]\<rparr>"
  have le: "length (retained self now) \<le> length (calls self)"
    by (simp add: retained_def)
  then have "int (length (retained self now)) < calls_per_interval self"
    using "2.prems" by simp
  then have w: "wait self now woke = (Inr None, ?self1)"
    by (rule wait_nosleep)
  have "int (length (calls ?self1) + length ps) \<le> calls_per_interval ?self1"
    using le "2.prems" by simp
  then have "fst (run ?self1 ps) = replicate (length ps) (Inr None)"
    using "2.IH" w by simp
  then show ?case using w by (simp add: run_Cons del: run.simps)
qed



section \<open>The invariant of the window\<close>

lemma filter_later:
  fixes xs :: "real list"
  assumes "now \<le> n"
  shows "filter (\<lambda>t. n - t < w) (filter (\<lambda>t. now - t < w) xs) = filter (\<lambda>t. n - t < w) xs"
proof -
  have "\<And>t. (now - t < w \<and> n - t < w) = (n - t < w)"
    using assms by auto
  then show ?thesis by simp
qed

lemma in_window_past:
  fixes xs :: "real list"
  assumes "\<forall>x \<in> set xs. x \<le> T"
  shows "in_window w T xs = filter (\<lambda>t. T - t < w) xs"
  unfolding in_window_def using assms by (intro filter_cong) auto

lemma in_window_snoc_earlier:
  "T < a \<Longrightarrow> in_window w T (xs @ [a]) = in_window w T xs"
  by (simp add: in_window_def)

lemma length_in_window_snoc:
  "length (in_window w T (xs @ [a])) \<le> length (in_window w T xs) + 1"
  by (simp add: in_window_def)

lemma window_inv_init: "0 < c \<Longrightarrow> window_inv seen (init c w) []"
  by (simp add: window_inv_def init_def in_window_def)

lemma window_inv_retained:
  assumes "window_inv seen self adm" and "seen \<le> now"
  shows "retained self now = in_window (interval self) now adm"
    and "int (length (retained self now)) \<le> calls_per_interval self"
proof -
  have "\<forall>x \<in> set adm. x \<le> now"
    using assms by (fastforce simp: window_inv_def)
  then have "in_window (interval self) now adm = filter (\<lambda>t. now - t < interval self) adm"
    by (rule in_window_past)
  moreover have "retained self now = filter (\<lambda>t. now - t < interval self) adm"
    using assms by (simp add: window_inv_def retained_def)
  ultimately show "retained self now = in_window (interval self) now adm" by simp
  then show "int (length (retained self now)) \<le> calls_per_interval self"
    using assms(1) by (simp add: window_inv_def)
qed

lemma window_inv_record:
  assumes inv: "window_inv seen self adm"
    and "seen \<le> now" and "now \<le> woke"
    and room: "\<And>T. woke \<le> T \<Longrightarrow>
        int (length (filter (\<lambda>t. T - t < interval self) (retained self now))) + 1 \<le> calls_per_interval self"
  shows "window_inv woke (self\<lparr>calls := retained self now @ [woke]\<rparr>) (adm @ [woke])"
proof -
  let ?w = "interval self" and ?c = "calls_per_interval self"
  have adm_le: "\<forall>x \<in> set adm. x \<le> seen" and calls_le: "\<forall>x \<in> set (calls self). x \<le> seen"
    and srt: "sorted (calls self)" and pos: "0 < ?c"
    and win: "\<And>T. int (length (in_window ?w T adm)) \<le> ?c"
    and same: "\<And>n. seen \<le> n \<Longrightarrow>
         filter (\<lambda>t. n - t < ?w) (calls self) = filter (\<lambda>t. n - t < ?w) adm"
    using inv by (simp_all add: window_inv_def)
  have ret: "retained self now = filter (\<lambda>t. now - t < ?w) adm"
    using same [of now] assms(2) by (simp add: retained_def)
  have a1: "\<forall>x \<in> set (adm @ [woke]). x \<le> woke"
    using adm_le assms(2,3) by fastforce
  have a2: "\<forall>x \<in> set (retained self now @ [woke]). x \<le> woke"
    using calls_le assms(2,3) by (fastforce simp: retained_def)
  have a3: "sorted (retained self now @ [woke])"
    using srt a2 by (simp add: sorted_append retained_def sorted_wrt_filter)
  have a4: "int (length (retained self now @ [woke])) \<le> ?c + 1"
    using window_inv_retained(2) [OF inv assms(2)] by simp
  have a5: "int (length (in_window ?w T (adm @ [woke]))) \<le> ?c" for T
  proof (cases "T < woke")
    case True
    then show ?thesis using win [of T] by (simp add: in_window_snoc_earlier)
  next
    case False
    then have T: "woke \<le> T" by simp
    then have "\<forall>x \<in> set adm. x \<le> T"
      using a1 by fastforce
    then have "in_window ?w T adm = filter (\<lambda>t. T - t < ?w) adm"
      by (rule in_window_past)
    also have "\<dots> = filter (\<lambda>t. T - t < ?w) (retained self now)"
      unfolding ret using filter_later [of now T ?w adm] T assms(3) by simp
    finally have "int (length (in_window ?w T adm)) + 1 \<le> ?c"
      using room [OF T] by simp
    then show ?thesis
      using length_in_window_snoc [of ?w T adm woke] by simp
  qed
  have a6: "filter (\<lambda>t. n - t < ?w) (retained self now @ [woke]) = filter (\<lambda>t. n - t < ?w) (adm @ [woke])"
    if "woke \<le> n" for n
  proof -
    have "filter (\<lambda>t. n - t < ?w) (retained self now) = filter (\<lambda>t. n - t < ?w) adm"
      unfolding ret using filter_later [of now n ?w adm] that assms(3) by simp
    then show ?thesis by simp
  qed
  show ?thesis
    unfolding window_inv_def using pos a1 a2 a3 a4 a5 a6 by simp
qed

lemma window_inv_prune:
  assumes inv: "window_inv seen self adm" and "seen \<le> now" and "now \<le> woke"
  shows "window_inv woke (self\<lparr>calls := retained self now\<rparr>) adm"
proof -
  let ?w = "interval self"
  have same: "\<And>n. seen \<le> n \<Longrightarrow>
         filter (\<lambda>t. n - t < ?w) (calls self) = filter (\<lambda>t. n - t < ?w) adm"
    using inv by (simp add: window_inv_def)
  have a1: "\<forall>x \<in> set adm. x \<le> woke"
    using inv assms(2,3) by (fastforce simp: window_inv_def)
  have a2: "\<forall>x \<in> set (retained self now). x \<le> woke"
    using inv assms(2,3) by (fastforce simp: window_inv_def retained_def)
  have a3: "sorted (retained self now)"
    using inv by (simp add: window_inv_def retained_def sorted_wrt_filter)
  have a4: "int (length (retained self now)) \<le> calls_per_interval self + 1"
    using window_inv_retained(2) [OF inv assms(2)] by simp
  have a6: "filter (\<lambda>t. n - t < ?w) (retained self now) = filter (\<lambda>t. n - t < ?w) adm"
    if "woke \<le> n" for n
  proof -
    have "filter (\<lambda>t. n - t < ?w) (retained self now) = filter (\<lambda>t. n - t < ?w) (calls self)"
      unfolding retained_def using filter_later [of now n ?w "calls self"] that assms(3) by simp
    then show ?thesis using same [of n] that assms(2,3) by simp
  qed
  show ?thesis
    unfolding window_inv_def using inv a1 a2 a3 a4 a6 by (simp add: window_inv_def)
qed

lemma wait_window_inv:
  assumes inv: "window_inv seen self adm"
    and "seen \<le> now" and "now + slept (fst (wait self now woke)) \<le> woke"
  shows "window_inv woke (snd (wait self now woke)) (adm @ admissions self [(now, woke)])"
proof (rule wait_cases [where self = self and now = now and woke = woke])
  assume few: "int (length (retained self now)) < calls_per_interval self"
    and w: "wait self now woke = (Inr None, self\<lparr>calls := retained self now @ [woke]\<rparr>)"
  have "now \<le> woke" using assms(3) w by simp
  moreover have "int (length (filter (\<lambda>t. T - t < interval self) (retained self now))) + 1
      \<le> calls_per_interval self" for T
  proof -
    have "length (filter (\<lambda>t. T - t < interval self) (retained self now)) \<le> length (retained self now)"
      by simp
    then show ?thesis using few by linarith
  qed
  ultimately show ?thesis
    using window_inv_record [OF inv assms(2)] w by simp
next
  fix c0 cs
  assume r: "retained self now = c0 # cs" and fresh: "now - c0 < interval self"
    and w: "wait self now woke =
      (Inr (Some (interval self - (now - c0))), self\<lparr>calls := c0 # cs @ [woke]\<rparr>)"
  have expire: "c0 + interval self \<le> woke" using assms(3) w by simp
  then have "now \<le> woke" using fresh by simp
  moreover have "int (length (filter (\<lambda>t. T - t < interval self) (retained self now))) + 1
      \<le> calls_per_interval self" if "woke \<le> T" for T
  proof -
    have "\<not> T - c0 < interval self" using expire that by simp
    then have "length (filter (\<lambda>t. T - t < interval self) (retained self now)) \<le> length cs"
      using r by simp
    moreover have "int (length (retained self now)) \<le> calls_per_interval self"
      by (rule window_inv_retained(2) [OF inv assms(2)])
    ultimately show ?thesis using r by simp
  qed
  ultimately show ?thesis
    using window_inv_record [OF inv assms(2)] w r by simp
next
  fix c0 cs
  assume w: "wait self now woke = (Inl OverflowError, self\<lparr>calls := retained self now\<rparr>)"
  have "now \<le> woke" using assms(3) w by simp
  then show ?thesis
    using window_inv_prune [OF inv assms(2)] w by simp
next
  assume "calls_per_interval self \<le> 0"
  then show ?thesis using inv by (simp add: window_inv_def)
qed

lemma run_window_inv:
  "window_inv seen self adm \<Longrightarrow> clock_ok self seen ps \<Longrightarrow>
     window_inv (last (seen # map snd ps)) (snd (run self ps)) (adm @ admissions self ps)"
proof (induction ps arbitrary: seen self adm)
  case Nil
  then show ?case by simp
next
  case (Cons p ps)
  obtain now woke where p: "p = (now, woke)" by (cases p)
  let ?self1 = "snd (wait self now woke)"
  have "window_inv woke ?self1 (adm @ admissions self [(now, woke)])"
    using wait_window_inv [OF Cons.prems(1), of now woke] Cons.prems(2) p by simp
  moreover have "clock_ok ?self1 woke ps"
    using Cons.prems(2) p by simp
  ultimately have "window_inv (last (woke # map snd ps)) (snd (run ?self1 ps))
      ((adm @ admissions self [(now, woke)]) @ admissions ?self1 ps)"
    by (rule Cons.IH)
  then show ?case
    using p admissions_Cons [of self now woke ps] by (simp add: run_Cons del: run.simps)
qed

section \<open>Spaced calls\<close>

text \<open>
  Timestamps more than \<open>g\<close> apart from each other, all inside an interval, are fewer
  than the length of the interval divided by \<open>g\<close>.
\<close>

lemma gapped_count:
  fixes xs :: "real list"
  assumes "0 < g"
  shows "sorted_wrt (\<lambda>a b. a + g < b) xs \<Longrightarrow> \<forall>t \<in> set xs. lo < t \<and> t + g < hi \<Longrightarrow> lo < hi
    \<Longrightarrow> real (length xs) * g < hi - lo"
proof (induction xs arbitrary: lo)
  case Nil
  then show ?case by simp
next
  case (Cons x xs)
  have "real (length xs) * g < hi - (x + g)"
  proof (rule Cons.IH)
    show "sorted_wrt (\<lambda>a b. a + g < b) xs" using Cons.prems(1) by simp
    show "\<forall>t \<in> set xs. x + g < t \<and> t + g < hi" using Cons.prems(1,2) by simp
    show "x + g < hi" using Cons.prems(2) by simp
  qed
  moreover have "lo < x" using Cons.prems(2) by simp
  ultimately show ?case by (simp add: algebra_simps)
qed

lemma count_below_capacity:
  assumes "0 < c" and "0 < w" and "real n * (w / real_of_int c) < w"
  shows "int n < c"
proof (rule ccontr)
  assume "\<not> int n < c"
  then have "real_of_int c \<le> real n" by linarith
  moreover have "0 \<le> w / real_of_int c" using assms(1,2) by simp
  ultimately have "real_of_int c * (w / real_of_int c) \<le> real n * (w / real_of_int c)"
    by (rule mult_right_mono)
  moreover have "real_of_int c * (w / real_of_int c) = w" using assms(1) by simp
  ultimately show False using assms(3) by simp
qed

lemma run_spaced:
  assumes "0 < calls_per_interval self" and "0 < interval self"
    and "g = interval self / real_of_int (calls_per_interval self)"
  shows "sorted_wrt (\<lambda>a b. a + g < b) (calls self)
    \<Longrightarrow> \<forall>t \<in> set (calls self). \<forall>p \<in> set (take 1 ps). t + g < fst p
    \<Longrightarrow> spaced g ps
    \<Longrightarrow> fst (run self ps) = replicate (length ps) (Inr None)"
  using assms
proof (induction ps arbitrary: self)
  case Nil
  then show ?case by simp
next
  case (Cons p ps)
  obtain now woke where p: "p = (now, woke)" by (cases p)
  let ?c = "calls_per_interval self" and ?w = "interval self"
  let ?self1 = "self\<lparr>calls := retained self now @ [woke]\<rparr>"
  have g: "0 < g" using Cons.prems(4,5,6) by simp
  have le: "now \<le> woke" using Cons.prems(3) p by (cases ps) auto
  have before: "\<forall>t \<in> set (calls self). t + g < now"
    using Cons.prems(2) p by simp
  have gap: "sorted_wrt (\<lambda>a b. a + g < b) (retained self now)"
    using Cons.prems(1) by (simp add: retained_def sorted_wrt_filter)
  have "\<forall>t \<in> set (retained self now). now - ?w < t \<and> t + g < now"
    using before by (auto simp: retained_def)
  then have "real (length (retained self now)) * g < now - (now - ?w)"
    using gapped_count [OF g gap, of "now - ?w" now] Cons.prems(5) by simp
  then have "int (length (retained self now)) < ?c"
    using count_below_capacity [of ?c ?w "length (retained self now)"] Cons.prems(4,5,6) by simp
  then have w: "wait self now woke = (Inr None, ?self1)"
    by (rule wait_nosleep)
  have "fst (run ?self1 ps) = replicate (length ps) (Inr None)"
  proof (rule Cons.IH)
    show "sorted_wrt (\<lambda>a b. a + g < b) (calls ?self1)"
      using gap before le by (auto simp: sorted_wrt_append retained_def)
    show "\<forall>t \<in> set (calls ?self1). \<forall>p \<in> set (take 1 ps). t + g < fst p"
    proof (cases ps)
      case Nil
      then show ?thesis by simp
    next
      case (Cons q qs)
      obtain now' woke' where q: "q = (now', woke')" by (cases q)
      have "woke + g < now'" using Cons.prems(3) p Cons q by simp
      then show ?thesis using before le g Cons q by (auto simp: retained_def)
    qed
    show "spaced g ps" using Cons.prems(3) p by (cases ps) auto
    show "0 < calls_per_interval ?self1" "0 < interval ?self1"
      "g = interval ?self1 / real_of_int (calls_per_interval ?self1)"
      using Cons.prems(4,5,6) by simp_all
  qed
  then show ?case using w p by (simp add: run_Cons del: run.simps)
qed

section \<open>The claims\<close>













text \<open>
  C5. A burst of as many calls as the permitted count (or fewer), on a freshly built
  limiter, returns from every call without sleeping: no call of the burst reaches
  \<^verbatim>\<open>time.sleep\<close>. This holds whatever the clock reads and whatever the window is.
\<close>

theorem burst_of_capacity_never_sleeps:
  "int (length ps) \<le> c \<Longrightarrow> fst (run (init c w) ps) = replicate (length ps) (Inr None)"
  using run_under_capacity [of "init c w" ps] by (simp add: init_def)

theorem burst_of_capacity_never_sleeps_witness:
  "int (length [(0::real, 0::real), (0, 0), (1, 2)]) \<le> 3
   \<and> fst (run (init 3 10) [(0, 0), (0, 0), (1, 2)]) = [Inr None, Inr None, Inr None]"
  using burst_of_capacity_never_sleeps [of "[(0, 0), (0, 0), (1, 2)]" 3 10]
  by (simp add: numeral_3_eq_3)

text \<open>
  C6. With three calls per ten seconds: the calls arriving at 0, 0 and 0 return without
  sleeping; the call arriving at 0.1 sleeps 9.9 seconds, that is until time 10, when the
  first timestamp leaves the window; the call arriving at 11 returns without sleeping.
\<close>

theorem scenario_three_per_ten:
  "run (init 3 10) [(0, 0), (0, 0), (0, 0), (1 / 10, 10), (11, 11)] =
     ([Inr None, Inr None, Inr None, Inr (Some (99 / 10)), Inr None],
      \<lparr>calls_per_interval = 3, interval = 10, calls = [10, 11]\<rparr>)
   \<and> 1 / 10 + slept (Inr (Some (99 / 10))) = 10"
  by (simp add: init_def wait_def retained_def time_sleep_def sleep_limit_def Let_def)

text \<open>
  C7, as the specification states it, fails on the code. \<^verbatim>\<open>wait\<close> reads the clock
  twice, and records the second reading (line 39), not the arrival (line 34). With one
  call per ten seconds, a call arrives at 0 and records 0.001; the next call arrives at
  10.0005, more than ten seconds after the first arrived, finds the timestamp 0.001 still
  inside its window, and sleeps 0.0005 seconds.
\<close>

theorem arrival_spacing_counterexample:
  "clock_ok (init 1 10) 0 [(0, 1 / 1000), (20001 / 2000, 10001 / 1000)]
   \<and> 0 + interval (init 1 10) / real_of_int (calls_per_interval (init 1 10)) < 20001 / 2000
   \<and> run (init 1 10) [(0, 1 / 1000), (20001 / 2000, 10001 / 1000)] =
       ([Inr None, Inr (Some (1 / 2000))],
        \<lparr>calls_per_interval = 1, interval = 10, calls = [1 / 1000, 10001 / 1000]\<rparr>)"
  by (simp add: init_def wait_def retained_def time_sleep_def sleep_limit_def Let_def)

text \<open>
  C7, amended. On a limiter built with a positive count and a positive window, when each
  call arrives more than \<open>w / c\<close> seconds after the timestamp recorded by the call before
  it, no call sleeps. This holds for every finite sequence of calls, so for every call of
  an infinite one. When a call takes no time (its two clock readings agree), the
  timestamp it records is its arrival time, and the condition is the spacing of the
  arrival times.
\<close>

theorem spaced_calls_never_sleep:
  assumes "0 < c" and "0 < w" and "spaced (w / real_of_int c) ps"
  shows "fst (run (init c w) ps) = replicate (length ps) (Inr None)"
  using run_spaced [of "init c w" "w / real_of_int c" ps] assms
  by (simp add: init_def)

theorem spaced_calls_never_sleep_witness:
  "(0::int) < 3 \<and> (0::real) < 10
   \<and> spaced (10 / real_of_int 3) [(0, 0), (4, 4), (8, 8), (12, 25 / 2), (16, 16)]
   \<and> fst (run (init 3 10) [(0, 0), (4, 4), (8, 8), (12, 25 / 2), (16, 16)])
        = [Inr None, Inr None, Inr None, Inr None, Inr None]"
  using spaced_calls_never_sleep [of 3 10 "[(0, 0), (4, 4), (8, 8), (12, 25 / 2), (16, 16)]"]
  by simp

text \<open>
  C8, as the specification states it, fails on the code. It does not hold in any state:
  with one call per ten seconds, a call is recorded at clock reading 1000 and the clock
  is then set back to 0. The next call comes eleven seconds later, at reading 11; the
  timestamp 1000 is not pruned, and the call sleeps 999 seconds.
\<close>

theorem idle_after_clock_set_back_counterexample:
  "snd (run (init 1 10) [(1000, 1000)]) = \<lparr>calls_per_interval = 1, interval = 10, calls = [1000]\<rparr>
   \<and> retained \<lparr>calls_per_interval = 1, interval = 10, calls = [1000]\<rparr> 11 = [1000]
   \<and> fst (wait \<lparr>calls_per_interval = 1, interval = 10, calls = [1000]\<rparr> 11 1010) = Inr (Some 999)"
  by (simp add: init_def wait_def retained_def time_sleep_def sleep_limit_def Let_def)

text \<open>
  C8, amended. On a limiter built with a positive count, in any state reached by a
  sequence of calls under a nondecreasing clock, when the next call arrives more than
  the window after the last reading of the last call, it prunes every timestamp and
  returns without sleeping; the list then holds its timestamp alone.
\<close>

theorem idle_longer_than_window_is_immediate:
  assumes "0 < c" and "nondecreasing t0 ps" and "ps \<noteq> []" and "snd (last ps) + w < now"
  shows "retained (snd (run (init c w) ps)) now = []
    \<and> wait (snd (run (init c w) ps)) now woke
        = (Inr None, (snd (run (init c w) ps))\<lparr>calls := [woke]\<rparr>)"
proof -
  let ?end = "snd (run (init c w) ps)"
  have "sorted_inv t0 (init c w)"
    by (simp add: sorted_inv_def init_def)
  then have "sorted_inv (last (t0 # map snd ps)) ?end"
    using assms(2) by (rule run_sorted_inv)
  then have past: "\<forall>t \<in> set (calls ?end). t \<le> snd (last ps)"
    using assms(3) by (simp add: sorted_inv_def last_map)
  have w: "interval ?end = w" and c: "calls_per_interval ?end = c"
    using run_keeps_fields [of "init c w" ps] by (simp_all add: init_def)
  have "\<forall>t \<in> set (calls ?end). \<not> now - t < w"
    using past assms(4) by fastforce
  then have r: "retained ?end now = []"
    using w by (simp add: retained_def)
  then show ?thesis
    using wait_nosleep [of ?end now woke] assms(1) c by simp
qed

theorem idle_longer_than_window_is_immediate_witness:
  "(0::int) < 3 \<and> nondecreasing 0 [(0, 0), (0, 0), (0, 0), (1 / 10, 10)]
   \<and> [(0::real, 0::real), (0, 0), (0, 0), (1 / 10, 10)] \<noteq> []
   \<and> (10::real) + 10 < 21
   \<and> calls (snd (run (init 3 10) [(0, 0), (0, 0), (0, 0), (1 / 10, 10)])) = [0, 0, 0, 10]
   \<and> retained (snd (run (init 3 10) [(0, 0), (0, 0), (0, 0), (1 / 10, 10)])) 21 = []
   \<and> wait (snd (run (init 3 10) [(0, 0), (0, 0), (0, 0), (1 / 10, 10)])) 21 21
       = (Inr None, \<lparr>calls_per_interval = 3, interval = 10, calls = [21]\<rparr>)"
  using idle_longer_than_window_is_immediate
    [of 3 0 "[(0, 0), (0, 0), (0, 0), (1 / 10, 10)]" 10 21 21]
  by (simp add: init_def wait_def retained_def time_sleep_def sleep_limit_def Let_def)

text \<open>
  C9. A limiter built with a count of zero or less is built without error, and its very
  first \<^verbatim>\<open>wait()\<close> passes the test \<^verbatim>\<open>len(self.calls) >= self.calls_per_interval\<close> with an
  empty list and raises IndexError at \<^verbatim>\<open>self.calls[0]\<close>, whatever the clock reads. The
  object is left as it was built.
\<close>

theorem zero_capacity_first_wait_raises:
  "c \<le> 0 \<Longrightarrow>
     init c i = \<lparr>calls_per_interval = c, interval = i, calls = []\<rparr>
     \<and> wait (init c i) now woke = (Inl IndexError, init c i)"
  by (simp add: init_def wait_def retained_def Let_def)

theorem zero_capacity_first_wait_raises_witness:
  "(0::int) \<le> 0 \<and> init 0 3600 = \<lparr>calls_per_interval = 0, interval = 3600, calls = []\<rparr>
     \<and> wait (init 0 3600) 5 5 = (Inl IndexError, init 0 3600)"
  using zero_capacity_first_wait_raises [of 0 3600 5 5] by (simp add: init_def)

text \<open>
  C10, as the specification states it, fails on the code. A clock can be nondecreasing
  and still show less time than a sleep asked for. With one call per ten seconds and the
  readings 0 and 0, 1 and 2, 3 and 4, the second and third call sleep and wake early by
  the clock; the list then holds three timestamps, more than the permitted count plus one.
\<close>

theorem early_wake_list_counterexample:
  "nondecreasing 0 [(0, 0), (1, 2), (3, 4)]
   \<and> calls (snd (run (init 1 10) [(0, 0), (1, 2), (3, 4)])) = [0, 2, 4]
   \<and> calls_per_interval (init 1 10) + 1 < int (length [0::real, 2, 4])"
  by (simp add: init_def wait_def retained_def time_sleep_def sleep_limit_def Let_def)

text \<open>
  C10, amended. On a limiter built with a positive count, under a nondecreasing clock
  the stored list is sorted in nondecreasing order after every call. When moreover every
  sleep of \<open>d\<close> seconds moves the reading on by at least \<open>d\<close>, the list holds at most
  one timestamp more than the permitted count. The bound is reached: after three calls
  at 0 and a fourth that sleeps until 10, the list of a limiter of three calls per ten
  seconds holds four timestamps.
\<close>

theorem stored_list_sorted_and_short:
  assumes "0 < c"
  shows "(nondecreasing t0 ps \<longrightarrow> sorted (calls (snd (run (init c w) ps))))
    \<and> (clock_ok (init c w) t0 ps \<longrightarrow>
          sorted (calls (snd (run (init c w) ps)))
        \<and> int (length (calls (snd (run (init c w) ps)))) \<le> c + 1)"
proof (intro conjI impI)
  let ?end = "snd (run (init c w) ps)"
  have start: "sorted_inv t0 (init c w)"
    by (simp add: sorted_inv_def init_def)
  show "sorted (calls ?end)" if "nondecreasing t0 ps"
    using run_sorted_inv [OF start that] by (simp add: sorted_inv_def)
  assume ok: "clock_ok (init c w) t0 ps"
  have "window_inv (last (t0 # map snd ps)) ?end ([] @ admissions (init c w) ps)"
    using run_window_inv [OF window_inv_init [OF assms] ok] .
  moreover have "calls_per_interval ?end = c"
    using run_keeps_fields [of "init c w" ps] by (simp add: init_def)
  ultimately show "sorted (calls ?end)" "int (length (calls ?end)) \<le> c + 1"
    by (simp_all add: window_inv_def)
qed

theorem stored_list_sorted_and_short_witness:
  "(0::int) < 3
   \<and> nondecreasing 0 [(0, 0), (0, 0), (0, 0), (1 / 10, 10)]
   \<and> clock_ok (init 3 10) 0 [(0, 0), (0, 0), (0, 0), (1 / 10, 10)]
   \<and> calls (snd (run (init 3 10) [(0, 0), (0, 0), (0, 0), (1 / 10, 10)])) = [0, 0, 0, 10]
   \<and> sorted (calls (snd (run (init 3 10) [(0, 0), (0, 0), (0, 0), (1 / 10, 10)])))
   \<and> int (length (calls (snd (run (init 3 10) [(0, 0), (0, 0), (0, 0), (1 / 10, 10)])))) = 3 + 1"
  using stored_list_sorted_and_short [of 3 0 "[(0, 0), (0, 0), (0, 0), (1 / 10, 10)]" 10]
  by (simp add: init_def wait_def retained_def time_sleep_def sleep_limit_def Let_def)

end
